theory Spec2Isabelle
  imports Main "HOL-Library.Sublist"
begin

section \<open>Strings\<close>

text \<open>
  The program is \<^verbatim>\<open>scripts/bib_to_tree.py\<close>. A Python \<^verbatim>\<open>str\<close> is modelled as a
  \<^typ>\<open>string\<close>; a \<^typ>\<open>char\<close> stands for the code point of the same number, so the model
  covers every string over U+0000..U+00FF, and the character classes below are
  Python's on that range. \<^verbatim>\<open>None\<close> is \<^term>\<open>None\<close>, an exception is the left
  summand of a sum type.
\<close>

datatype error = ValueError | EmptyInput | OverwriteConflict "string \<times> string"

definition isspace :: "char \<Rightarrow> bool" where
  \<comment> \<open>\<^verbatim>\<open>str.isspace\<close>, which \<^verbatim>\<open>strip()\<close> and \<^verbatim>\<open>split()\<close> use: TAB..CR, FS..US, space,
      NEL, NBSP.\<close>
  "isspace c = (let n = (of_char c :: nat)
                in (9 \<le> n \<and> n \<le> 13) \<or> (28 \<le> n \<and> n \<le> 32) \<or> n = 133 \<or> n = 160)"

definition isdigit :: "char \<Rightarrow> bool" where
  \<comment> \<open>\<^verbatim>\<open>str.isdigit\<close> on one character: 0..9 and the superscripts U+00B2, U+00B3, U+00B9.\<close>
  "isdigit c = (let n = (of_char c :: nat)
                in (48 \<le> n \<and> n \<le> 57) \<or> n = 178 \<or> n = 179 \<or> n = 185)"

definition isdecimal :: "char \<Rightarrow> bool" where
  \<comment> \<open>the digits \<^verbatim>\<open>int()\<close> accepts: 0..9.\<close>
  "isdecimal c = (let n = (of_char c :: nat) in 48 \<le> n \<and> n \<le> 57)"

definition lower_char :: "char \<Rightarrow> char" where
  \<comment> \<open>\<^verbatim>\<open>str.lower\<close> on one character: A..Z and U+00C0..U+00DE without U+00D7.\<close>
  "lower_char c = (let n = (of_char c :: nat)
                   in if (65 \<le> n \<and> n \<le> 90) \<or> (192 \<le> n \<and> n \<le> 222 \<and> n \<noteq> 215)
                      then char_of (n + 32) else c)"

definition lower :: "string \<Rightarrow> string" where
  "lower s = map lower_char s"

definition strip_by :: "(char \<Rightarrow> bool) \<Rightarrow> string \<Rightarrow> string" where
  \<comment> \<open>remove the leading and the trailing characters of a class\<close>
  "strip_by P s = rev (dropWhile P (rev (dropWhile P s)))"

definition strip :: "string \<Rightarrow> string" where
  \<comment> \<open>\<^verbatim>\<open>s.strip()\<close>\<close>
  "strip s = strip_by isspace s"

definition strip_char :: "char \<Rightarrow> string \<Rightarrow> string" where
  \<comment> \<open>\<^verbatim>\<open>s.strip(c)\<close> for a one-character argument\<close>
  "strip_char c s = strip_by (\<lambda>x. x = c) s"

definition startswith :: "string \<Rightarrow> string \<Rightarrow> bool" where
  "startswith s p = (take (length p) s = p)"

definition endswith :: "string \<Rightarrow> string \<Rightarrow> bool" where
  "endswith s p = (length p \<le> length s \<and> drop (length s - length p) s = p)"

definition replace_char :: "char \<Rightarrow> string \<Rightarrow> string \<Rightarrow> string" where
  \<comment> \<open>\<^verbatim>\<open>s.replace(old, new)\<close> for a one-character \<^verbatim>\<open>old\<close>\<close>
  "replace_char old new s = concat (map (\<lambda>c. if c = old then new else [c]) s)"

function split_ws :: "string \<Rightarrow> string list" where
  \<comment> \<open>\<^verbatim>\<open>s.split()\<close>: the maximal runs of non-whitespace characters\<close>
  "split_ws s =
     (case dropWhile isspace s of
        [] \<Rightarrow> []
      | c # cs \<Rightarrow> takeWhile (\<lambda>x. \<not> isspace x) (c # cs)
                 # split_ws (dropWhile (\<lambda>x. \<not> isspace x) (c # cs)))"
  by pat_completeness auto
termination
proof (relation "measure length")
  show "wf (measure length)" by simp
next
  fix s :: string and c cs
  assume h: "dropWhile isspace s = c # cs"
  have "\<not> isspace c" using h hd_dropWhile [of isspace s] by auto
  then have "length (dropWhile (\<lambda>x. \<not> isspace x) (c # cs)) \<le> length cs"
    by (simp add: length_dropWhile_le)
  also have "length cs < length (dropWhile isspace s)" using h by simp
  also have "\<dots> \<le> length s" by (rule length_dropWhile_le)
  finally show "(dropWhile (\<lambda>x. \<not> isspace x) (c # cs), s) \<in> measure length" by simp
qed

declare split_ws.simps [simp del]

fun join :: "string \<Rightarrow> string list \<Rightarrow> string" where
  \<comment> \<open>\<^verbatim>\<open>sep.join(parts)\<close>\<close>
  "join sep [] = []"
| "join sep [x] = x"
| "join sep (x # y # ys) = x @ sep @ join sep (y # ys)"

section \<open>Field Normalizer\<close>

function strip_braces_loop :: "string \<Rightarrow> string" where
  \<comment> \<open>the \<^verbatim>\<open>while\<close> loop of \<^verbatim>\<open>_strip_braces\<close>\<close>
  "strip_braces_loop v =
     (if startswith v ''{'' \<and> endswith v ''}'' \<and> length v > 1
      then strip_braces_loop (strip (butlast (tl v)))
      else v)"
  by pat_completeness auto
termination
proof (relation "measure length")
  show "wf (measure length)" by simp
next
  fix v :: string
  assume "startswith v ''{'' \<and> endswith v ''}'' \<and> 1 < length v"
  then have "length (butlast (tl v)) < length v" by auto
  moreover have "length (strip (butlast (tl v))) \<le> length (butlast (tl v))"
    unfolding strip_def strip_by_def
    by (metis length_rev length_dropWhile_le le_trans)
  ultimately show "(strip (butlast (tl v)), v) \<in> measure length" by simp
qed

declare strip_braces_loop.simps [simp del]

definition strip_braces :: "string \<Rightarrow> string" where
  "strip_braces v = strip_braces_loop (strip v)"

definition clean_whitespace :: "string option \<Rightarrow> string" where
  \<comment> \<open>\<^verbatim>\<open>_clean_whitespace\<close>; \<^verbatim>\<open>not value\<close> holds of \<^verbatim>\<open>None\<close> and of the empty string\<close>
  "clean_whitespace value =
     (case value of
        None \<Rightarrow> []
      | Some v \<Rightarrow>
          if v = [] then []
          else strip_braces (join '' '' (split_ws (replace_char (CHR 0x0A) '' '' v))))"


subsection \<open>Integers: \<^verbatim>\<open>int(s)\<close> and the format specification \<^verbatim>\<open>0Nd\<close>\<close>

fun digit_groups :: "string \<Rightarrow> bool" where
  \<comment> \<open>one or more decimal digits, with single underscores allowed between digits\<close>
  "digit_groups [] = False"
| "digit_groups [c] = isdecimal c"
| "digit_groups (c # d # r) =
     (isdecimal c \<and> (if d = CHR ''_'' then digit_groups r else digit_groups (d # r)))"

definition digits_value :: "string \<Rightarrow> nat" where
  "digits_value s = foldl (\<lambda>a c. 10 * a + (of_char c - 48)) 0 s"

definition py_int :: "string \<Rightarrow> error + int" where
  \<comment> \<open>\<^verbatim>\<open>int(s)\<close>: surrounding whitespace, an optional sign, a decimal literal; anything else
      raises \<^verbatim>\<open>ValueError\<close>. The interpreter's configurable limit on the number of digits
      is not part of the model.\<close>
  "py_int s =
     (let t = strip s;
          neg = (t \<noteq> [] \<and> hd t = CHR ''-'');
          body = (if t \<noteq> [] \<and> (hd t = CHR ''-'' \<or> hd t = CHR ''+'') then tl t else t)
      in if digit_groups body
         then Inr ((if neg then - 1 else 1) * int (digits_value (filter (\<lambda>c. c \<noteq> CHR ''_'') body)))
         else Inl ValueError)"

function dec :: "nat \<Rightarrow> string" where
  \<comment> \<open>the decimal digits of a natural number\<close>
  "dec n = (if n < 10 then [char_of (48 + n)] else dec (n div 10) @ [char_of (48 + n mod 10)])"
  by pat_completeness auto
termination
  by (relation "measure id") auto

declare dec.simps [simp del]

definition format_0d :: "nat \<Rightarrow> int \<Rightarrow> string" where
  \<comment> \<open>\<^verbatim>\<open>f"{v:0Nd}"\<close>: zero fill after the sign, to a total width of \<^verbatim>\<open>N\<close>\<close>
  "format_0d w v =
     (if v < 0
      then CHR ''-'' # replicate (w - 1 - length (dec (nat (- v)))) CHR ''0'' @ dec (nat (- v))
      else replicate (w - length (dec (nat v))) CHR ''0'' @ dec (nat v))"

subsection \<open>Records\<close>

text \<open>
  A record is the parser's \<^verbatim>\<open>dict\<close>: an association list in the dictionary's iteration
  order; \<^verbatim>\<open>entry.get(k)\<close> is \<^term>\<open>map_of entry k\<close>.
\<close>

type_synonym entry = "(string \<times> string) list"

subsection \<open>Authors, months and dates\<close>

function split_sep :: "string \<Rightarrow> string \<Rightarrow> string \<Rightarrow> string list" where
  \<comment> \<open>\<^verbatim>\<open>s.split(sep)\<close> for a non-empty \<^verbatim>\<open>sep\<close>, scanning from the left; the second
      argument is the part read since the last separator\<close>
  "split_sep sep cur s =
     (if s = [] then [cur]
      else if sep \<noteq> [] \<and> startswith s sep then cur # split_sep sep [] (drop (length sep) s)
      else split_sep sep (cur @ [hd s]) (tl s))"
  by pat_completeness auto
termination
  by (relation "measure (\<lambda>(sep, cur, s). length s)") auto

declare split_sep.simps [simp del]

definition format_authors :: "string option \<Rightarrow> string option" where
  "format_authors author_field =
     (let raw = clean_whitespace author_field
      in if raw = [] then None
         else let authors = filter (\<lambda>p. p \<noteq> []) (map strip (split_sep '' and '' [] raw))
              in if authors = [] then None else Some (join '', '' authors))"

definition name_map :: "string \<Rightarrow> int option" where
  "name_map = map_of
     [(''jan'', 1), (''feb'', 2), (''mar'', 3), (''apr'', 4), (''may'', 5), (''jun'', 6),
      (''jul'', 7), (''aug'', 8), (''sep'', 9), (''sept'', 9), (''oct'', 10), (''nov'', 11),
      (''dec'', 12)]"

definition str_isdigit :: "string \<Rightarrow> bool" where
  \<comment> \<open>\<^verbatim>\<open>s.isdigit()\<close>: non-empty and every character a digit\<close>
  "str_isdigit s = (s \<noteq> [] \<and> list_all isdigit s)"

definition parse_month :: "string option \<Rightarrow> error + int" where
  "parse_month month =
     (case month of
        None \<Rightarrow> Inr 1
      | Some m0 \<Rightarrow>
          if m0 = [] then Inr 1
          else let m = lower (strip m0);
                   by_name = (case name_map (take 3 m) of None \<Rightarrow> 1 | Some v \<Rightarrow> v)
               in if str_isdigit m
                  then (case py_int m of
                          Inl err \<Rightarrow> Inl err
                        | Inr v \<Rightarrow> if 1 \<le> v \<and> v \<le> 12 then Inr v else Inr by_name)
                  else Inr by_name)"

definition day_of :: "string \<Rightarrow> int" where
  \<comment> \<open>the \<^verbatim>\<open>try\<close> block of \<^verbatim>\<open>_format_date\<close> and the clamp after it\<close>
  "day_of day =
     (let day_value = (if day \<noteq> [] then (case py_int day of Inl err \<Rightarrow> 1 | Inr v \<Rightarrow> v) else 1)
      in min (max day_value 1) 31)"

definition format_date :: "entry \<Rightarrow> error + string option" where
  "format_date entry =
     (let year = clean_whitespace (map_of entry ''year'')
      in if year = [] then Inr None
         else case parse_month (Some (clean_whitespace (map_of entry ''month''))) of
                Inl err \<Rightarrow> Inl err
              | Inr month \<Rightarrow>
                  let day_value = day_of (clean_whitespace (map_of entry ''day''))
                  in (case py_int year of
                        Inl err \<Rightarrow> Inl err
                      | Inr y \<Rightarrow> Inr (Some (format_0d 4 y @ ''-'' @ format_0d 2 month
                                             @ ''-'' @ format_0d 2 day_value))))"


section \<open>Identifier Synthesizer\<close>

definition alnum :: "char \<Rightarrow> bool" where
  \<comment> \<open>the character class \<^verbatim>\<open>[a-z0-9]\<close>\<close>
  "alnum c = (let n = (of_char c :: nat) in (97 \<le> n \<and> n \<le> 122) \<or> (48 \<le> n \<and> n \<le> 57))"

function sub_runs :: "(char \<Rightarrow> bool) \<Rightarrow> string \<Rightarrow> string" where
  \<comment> \<open>\<^verbatim>\<open>re.sub(r"C+", "-", s)\<close> for a character class \<^verbatim>\<open>C\<close>: every maximal run of
      characters of the class becomes one hyphen\<close>
  "sub_runs P [] = []"
| "sub_runs P (c # cs) =
     (if P c then CHR ''-'' # sub_runs P (dropWhile P cs) else c # sub_runs P cs)"
  by pat_completeness auto
termination
  by (relation "measure (\<lambda>(P, s). length s)") (auto simp: length_dropWhile_le less_Suc_eq_le)

definition slugify :: "string \<Rightarrow> string" where
  "slugify name0 =
     (let name1 = lower (strip name0);
          name2 = strip_braces name1;
          name3 = sub_runs (\<lambda>c. \<not> alnum c) name2;
          name4 = strip_char CHR ''-'' (sub_runs (\<lambda>c. c = CHR ''-'') name3)
      in if name4 = [] then ''reference'' else name4)"

section \<open>Metadata Projector\<close>

abbreviation backslash :: char where
  "backslash \<equiv> CHR 0x5C"

definition strip_url_command :: "string \<Rightarrow> string" where
  "strip_url_command value =
     (let trimmed = strip value
      in if startswith trimmed (backslash # ''url{'') \<and> endswith trimmed ''}''
         then strip (butlast (drop 5 trimmed))
         else trimmed)"

definition escape_meta_value :: "string \<Rightarrow> string" where
  "escape_meta_value value = replace_char CHR ''%'' [backslash, CHR ''%''] value"

definition URL_FIELDS :: "string list" where
  "URL_FIELDS = [''url'', ''howpublished'', ''external'']"

definition skip :: "string list" where
  "skip = [''title'', ''author'', ''year'', ''month'', ''day'']"

fun meta_pairs :: "entry \<Rightarrow> (string \<times> string) list" where
  \<comment> \<open>the generator \<^verbatim>\<open>_meta_pairs\<close>, as the list of the pairs it yields\<close>
  "meta_pairs [] = []"
| "meta_pairs ((field, value) # rest) =
     (if field \<in> set skip then meta_pairs rest
      else let cleaned = clean_whitespace (Some value)
           in if cleaned \<noteq> []
              then let meta_key = (if lower field \<in> set URL_FIELDS then ''external'' else field);
                       cleaned' = (if meta_key = ''external'' then strip_url_command cleaned
                                   else cleaned)
                   in (meta_key, escape_meta_value cleaned') # meta_pairs rest
              else meta_pairs rest)"

section \<open>Document Synthesizer\<close>

definition title_line :: "string \<Rightarrow> string" where
  "title_line t = backslash # ''title{'' @ t @ ''}''"

definition taxon_line :: string where
  "taxon_line = backslash # ''taxon{Reference}''"

definition author_line :: "string \<Rightarrow> string" where
  "author_line a = backslash # ''author/literal{'' @ a @ ''}''"

definition date_line :: "string \<Rightarrow> string" where
  "date_line d = backslash # ''date{'' @ d @ ''}''"

definition meta_line :: "string \<times> string \<Rightarrow> string" where
  "meta_line kv = backslash # ''meta{'' @ fst kv @ ''}{'' @ snd kv @ ''}''"

definition append_meta :: "string list \<Rightarrow> string \<times> string \<Rightarrow> string list" where
  \<comment> \<open>the body of the \<^verbatim>\<open>for key, value in _meta_pairs(entry)\<close> loop\<close>
  "append_meta lines kv = (if snd kv \<noteq> [] then lines @ [meta_line kv] else lines)"

definition build_tree_content :: "entry \<Rightarrow> error + string" where
  "build_tree_content entry =
     (let title = (let t = clean_whitespace (map_of entry ''title'')
                   in if t \<noteq> [] then t else ''Untitled'');
          lines0 = [title_line title, taxon_line];
          lines1 = (case format_authors (map_of entry ''author'') of
                      None \<Rightarrow> lines0
                    | Some authors \<Rightarrow> if authors \<noteq> [] then lines0 @ [author_line authors]
                                      else lines0)
      in case format_date entry of
           Inl err \<Rightarrow> Inl err
         | Inr date_value \<Rightarrow>
             (let lines2 = (case date_value of
                              None \<Rightarrow> lines1
                            | Some d \<Rightarrow> if d \<noteq> [] then lines1 @ [date_line d] else lines1);
                  lines3 = foldl append_meta lines2 (meta_pairs entry)
              in Inr (join [CHR 0x0A] (lines3 @ [[]]))))"

section \<open>Batch Converter\<close>

text \<open>
  The file system is the map from the paths of the regular files that exist to their
  contents; a path is the pair of the output directory and the file name in it. Reading
  and parsing the source file is the parser's work: \<^verbatim>\<open>convert_bibtex\<close> takes the list of
  records it returns. The function returns its result, or the exception that ended the run,
  together with the file system it leaves behind.
\<close>

type_synonym path = "string \<times> string"

definition citekey :: "entry \<Rightarrow> string" where
  \<comment> \<open>\<^verbatim>\<open>entry.get("ID") or _slugify(entry.get("title", "reference"))\<close>\<close>
  "citekey entry =
     (let from_title = slugify (case map_of entry ''title'' of None \<Rightarrow> ''reference'' | Some t \<Rightarrow> t)
      in case map_of entry ''ID'' of
           None \<Rightarrow> from_title
         | Some i \<Rightarrow> if i \<noteq> [] then i else from_title)"

definition target_of :: "string \<Rightarrow> entry \<Rightarrow> path" where
  "target_of output_dir entry = (output_dir, slugify (citekey entry) @ ''.tree'')"




section \<open>Notions used in the statements\<close>

subsection \<open>Normal forms of cleaned values\<close>

text \<open>
  A string is single-spaced when its only whitespace characters are spaces and no two of
  them are adjacent; it is trimmed when it neither starts nor ends with whitespace; it is
  brace-wrapped when the loop of \<^verbatim>\<open>_strip_braces\<close> would strip it once more.
\<close>

fun single_spaced :: "string \<Rightarrow> bool" where
  "single_spaced [] = True"
| "single_spaced [c] = (isspace c \<longrightarrow> c = CHR '' '')"
| "single_spaced (c # d # r) =
     ((isspace c \<longrightarrow> c = CHR '' '') \<and> \<not> (isspace c \<and> isspace d) \<and> single_spaced (d # r))"

definition trimmed :: "string \<Rightarrow> bool" where
  "trimmed s = (s = [] \<or> (\<not> isspace (hd s) \<and> \<not> isspace (last s)))"

definition is_word :: "string \<Rightarrow> bool" where
  "is_word w = (w \<noteq> [] \<and> (\<forall>c\<in>set w. \<not> isspace c))"

definition brace_wrapped :: "string \<Rightarrow> bool" where
  "brace_wrapped v = (startswith v ''{'' \<and> endswith v ''}'' \<and> length v > 1)"

subsection \<open>The slug pattern\<close>

text \<open>
  \<^term>\<open>matches_slug s\<close> is a full match of \<^verbatim>\<open>[a-z0-9]+(-[a-z0-9]+)*\<close>: the first character
  is in the class, and \<^term>\<open>slug_tail\<close> reads the rest, where a hyphen must be followed by a
  character of the class. A string is in slug normal form when it is non-empty, consists
  of class characters and hyphens, has no two adjacent hyphens and neither starts nor ends
  with one.
\<close>

fun slug_tail :: "string \<Rightarrow> bool" where
  "slug_tail [] = True"
| "slug_tail [c] = alnum c"
| "slug_tail (c # d # r) =
     (if alnum c then slug_tail (d # r) else c = CHR ''-'' \<and> alnum d \<and> slug_tail r)"

definition matches_slug :: "string \<Rightarrow> bool" where
  "matches_slug s = (case s of [] \<Rightarrow> False | c # r \<Rightarrow> alnum c \<and> slug_tail r)"

fun no_adjacent :: "(char \<Rightarrow> bool) \<Rightarrow> string \<Rightarrow> bool" where
  "no_adjacent P [] = True"
| "no_adjacent P [c] = True"
| "no_adjacent P (c # d # r) = (\<not> (P c \<and> P d) \<and> no_adjacent P (d # r))"

definition slug_chars :: "string \<Rightarrow> bool" where
  "slug_chars s = list_all (\<lambda>c. alnum c \<or> c = CHR ''-'') s"

abbreviation hyphen :: "char \<Rightarrow> bool" where
  "hyphen \<equiv> (\<lambda>c. c = CHR ''-'')"

definition slug_nf :: "string \<Rightarrow> bool" where
  "slug_nf s = (s \<noteq> [] \<and> slug_chars s \<and> no_adjacent hyphen s
                \<and> \<not> hyphen (hd s) \<and> \<not> hyphen (last s))"

subsection \<open>Months and dates as the specification words them\<close>





subsection \<open>Metadata entries as the specification words them\<close>

fun pct_ok :: "bool \<Rightarrow> string \<Rightarrow> bool" where
  \<comment> \<open>every percent sign stands directly after a backslash; the flag says whether the
      character before the string is one\<close>
  "pct_ok b [] = True"
| "pct_ok b (c # r) = ((if c = CHR ''%'' then b else True) \<and> pct_ok (c = backslash) r)"

definition percent_escaped :: "string \<Rightarrow> bool" where
  "percent_escaped s = pct_ok False s"

fun unescape :: "string \<Rightarrow> string" where
  \<comment> \<open>drop the backslash of every \<^verbatim>\<open>\%\<close>\<close>
  "unescape [] = []"
| "unescape [c] = [c]"
| "unescape (c # d # r) =
     (if c = backslash \<and> d = CHR ''%'' then CHR ''%'' # unescape r else c # unescape (d # r))"

definition unwrap_url :: "string \<Rightarrow> string" where
  \<comment> \<open>a value of the form \<^verbatim>\<open>\url{...}\<close> loses the wrapper and its content is trimmed\<close>
  "unwrap_url v =
     (if startswith v (backslash # ''url{'') \<and> endswith v ''}''
      then strip (take (length v - 6) (drop 5 v)) else v)"

definition meta_entry :: "string \<Rightarrow> string \<Rightarrow> (string \<times> string) option" where
  \<comment> \<open>the specification's projection of one field\<close>
  "meta_entry field value =
     (let cleaned = clean_whitespace (Some value);
          renamed = (lower field = ''url'' \<or> lower field = ''howpublished''
                     \<or> lower field = ''external'')
      in if field = ''title'' \<or> field = ''author'' \<or> field = ''year'' \<or> field = ''month''
            \<or> field = ''day'' \<or> cleaned = []
         then None
         else Some (if renamed then ''external'' else field,
                    escape_meta_value (if renamed then unwrap_url cleaned else cleaned)))"

subsection \<open>The document as the specification words it\<close>

definition document_lines :: "entry \<Rightarrow> string option \<Rightarrow> string list" where
  \<comment> \<open>the content lines of the document of a record whose date is \<open>d\<close>: title, taxonomy,
      author if any, date if any, and the metadata entries with a non-empty value\<close>
  "document_lines entry d =
     [title_line (if clean_whitespace (map_of entry ''title'') = [] then ''Untitled''
                  else clean_whitespace (map_of entry ''title'')),
      taxon_line]
     @ (case format_authors (map_of entry ''author'') of None \<Rightarrow> [] | Some a \<Rightarrow> [author_line a])
     @ (case d of None \<Rightarrow> [] | Some s \<Rightarrow> [date_line s])
     @ map meta_line (filter (\<lambda>kv. snd kv \<noteq> []) (meta_pairs entry))"

definition content_line :: "string \<Rightarrow> bool" where
  \<comment> \<open>a non-empty line that ends with the closing brace of its command\<close>
  "content_line l = (l \<noteq> [] \<and> last l = CHR ''}'')"


section \<open>Properties\<close>

subsection \<open>Whitespace and braces\<close>

lemma isspace_simps: "isspace CHR '' ''" "isspace (CHR 0x0A)"
  by (simp_all add: isspace_def)

lemma join_Cons: "ys \<noteq> [] \<Longrightarrow> join sep (x # ys) = x @ sep @ join sep ys"
  by (cases ys) simp_all

lemma single_spaced_Cons: "single_spaced (c # s) \<Longrightarrow> single_spaced s"
  by (cases s) simp_all

lemma single_spaced_appendD2: "single_spaced (a @ b) \<Longrightarrow> single_spaced b"
  by (induction a) (auto dest: single_spaced_Cons)

lemma single_spaced_appendD1: "single_spaced (a @ b) \<Longrightarrow> single_spaced a"
proof (induction a rule: single_spaced.induct)
  case (3 c d r)
  then show ?case by simp
next
  case (2 c)
  then show ?case by (cases b) simp_all
qed simp

lemma single_spaced_set: "single_spaced s \<Longrightarrow> c \<in> set s \<Longrightarrow> isspace c \<Longrightarrow> c = CHR '' ''"
  by (induction s rule: single_spaced.induct) auto

lemma single_spaced_append:
  "single_spaced a \<Longrightarrow> single_spaced b \<Longrightarrow> a = [] \<or> b = [] \<or> \<not> (isspace (last a) \<and> isspace (hd b))
   \<Longrightarrow> single_spaced (a @ b)"
proof (induction a rule: single_spaced.induct)
  case 1
  then show ?case by simp
next
  case (2 c)
  then show ?case by (cases b) auto
next
  case (3 c d r)
  then show ?case by auto
qed

lemma strip_by_decomp: "\<exists>a b. s = a @ strip_by P s @ b"
proof -
  let ?d = "dropWhile P s"
  have 1: "s = takeWhile P s @ ?d" by simp
  have "rev ?d = takeWhile P (rev ?d) @ dropWhile P (rev ?d)" by simp
  then have "?d = rev (dropWhile P (rev ?d)) @ rev (takeWhile P (rev ?d))"
    by (metis rev_append rev_rev_ident)
  then have "?d = strip_by P s @ rev (takeWhile P (rev ?d))" by (simp add: strip_by_def)
  with 1 show ?thesis by metis
qed

lemma strip_by_ends:
  "strip_by P s = [] \<or> (\<not> P (hd (strip_by P s)) \<and> \<not> P (last (strip_by P s)))"
proof -
  let ?d = "dropWhile P s"
  let ?r = "dropWhile P (rev ?d)"
  show ?thesis
  proof (cases "strip_by P s = []")
    case True
    then show ?thesis by simp
  next
    case False
    then have rne: "?r \<noteq> []" by (simp add: strip_by_def)
    then have "\<not> P (hd ?r)" by (rule hd_dropWhile)
    then have l: "\<not> P (last (strip_by P s))" using rne by (simp add: strip_by_def last_rev)
    have dne: "?d \<noteq> []"
      using rne by (metis dropWhile.simps(1) rev.simps(1))
    then have hd: "\<not> P (hd ?d)" by (rule hd_dropWhile)
    have "rev ?d = takeWhile P (rev ?d) @ ?r" by simp
    then have "?d = rev ?r @ rev (takeWhile P (rev ?d))" by (metis rev_append rev_rev_ident)
    then have "hd ?d = hd (rev ?r)" using rne by (metis hd_append2 rev_is_Nil_conv)
    with hd l show ?thesis by (simp add: strip_by_def)
  qed
qed

lemma strip_by_id: "s = [] \<or> (\<not> P (hd s) \<and> \<not> P (last s)) \<Longrightarrow> strip_by P s = s"
proof (cases "s = []")
  case True
  then show ?thesis by (simp add: strip_by_def)
next
  case False
  assume "s = [] \<or> (\<not> P (hd s) \<and> \<not> P (last s))"
  with False have h: "\<not> P (hd s)" and l: "\<not> P (last s)" by auto
  from h False have "dropWhile P s = s" by (cases s) auto
  moreover from l False have "dropWhile P (rev s) = rev s" by (cases s rule: rev_cases) auto
  ultimately show ?thesis by (simp add: strip_by_def)
qed

lemma strip_decomp: "\<exists>a b. s = a @ strip s @ b"
  unfolding strip_def by (rule strip_by_decomp)

lemma single_spaced_strip: "single_spaced s \<Longrightarrow> single_spaced (strip s)"
  using strip_decomp [of s] by (metis single_spaced_appendD1 single_spaced_appendD2)

lemma single_spaced_tl: "single_spaced s \<Longrightarrow> single_spaced (tl s)"
  by (cases s) (auto dest: single_spaced_Cons)

lemma single_spaced_butlast: "single_spaced s \<Longrightarrow> single_spaced (butlast s)"
  by (cases s rule: rev_cases) (auto dest: single_spaced_appendD1)

lemma trimmed_strip: "trimmed (strip s)"
  unfolding trimmed_def strip_def by (rule strip_by_ends)

lemma strip_trimmed: "trimmed s \<Longrightarrow> strip s = s"
  unfolding trimmed_def strip_def by (rule strip_by_id)

lemma split_ws_Nil: "split_ws s = [] \<longleftrightarrow> dropWhile isspace s = []"
  by (cases "dropWhile isspace s"; subst split_ws.simps; simp del: dropWhile_eq_Nil_conv)

lemma split_ws_words: "w \<in> set (split_ws s) \<Longrightarrow> is_word w"
proof (induction s arbitrary: w rule: split_ws.induct)
  case (1 s)
  show ?case
  proof (cases "dropWhile isspace s")
    case Nil
    with "1.prems" show ?thesis by (subst (asm) split_ws.simps) simp
  next
    case (Cons c cs)
    then have nc: "\<not> isspace c" using hd_dropWhile [of isspace s] by auto
    from "1.prems" Cons have
      "w = takeWhile (\<lambda>x. \<not> isspace x) (c # cs) \<or> w \<in> set (split_ws (dropWhile (\<lambda>x. \<not> isspace x) (c # cs)))"
      by (subst (asm) split_ws.simps) simp
    then show ?thesis
    proof
      assume w: "w = takeWhile (\<lambda>x. \<not> isspace x) (c # cs)"
      then have "w \<noteq> []" using nc by simp
      moreover have "\<forall>x\<in>set w. \<not> isspace x" unfolding w by (metis set_takeWhileD)
      ultimately show ?thesis by (simp add: is_word_def)
    next
      assume "w \<in> set (split_ws (dropWhile (\<lambda>x. \<not> isspace x) (c # cs)))"
      then show ?thesis using "1.IH" [OF Cons] by simp
    qed
  qed
qed

lemma single_spaced_word: "\<forall>c\<in>set w. \<not> isspace c \<Longrightarrow> single_spaced w"
  by (induction w rule: single_spaced.induct) auto

lemma is_wordD:
  assumes "is_word w"
  shows "w \<noteq> []" "\<not> isspace (hd w)" "\<not> isspace (last w)" "single_spaced w"
proof -
  from assms show ne: "w \<noteq> []" by (simp add: is_word_def)
  from assms have a: "\<forall>c\<in>set w. \<not> isspace c" by (simp add: is_word_def)
  from ne have "hd w \<in> set w" "last w \<in> set w" by simp_all
  with a show "\<not> isspace (hd w)" "\<not> isspace (last w)" by blast+
  from a show "single_spaced w" by (rule single_spaced_word)
qed

lemma join_words:
  "\<forall>w\<in>set ws. is_word w \<Longrightarrow> single_spaced (join '' '' ws) \<and> trimmed (join '' '' ws)"
proof (induction ws rule: induct_list012)
  case 1
  then show ?case by (simp add: trimmed_def)
next
  case (2 x)
  then show ?case using is_wordD [of x] by (simp add: trimmed_def)
next
  case (3 x y ys)
  let ?t = "join '' '' (y # ys)"
  from 3 have t: "single_spaced ?t" "trimmed ?t" by simp_all
  from "3.prems" have x: "is_word x" and y: "is_word y" by simp_all
  have tne: "?t \<noteq> []" using is_wordD(1) [OF y] by (cases ys) auto
  with t have ht: "\<not> isspace (hd ?t)" and lt: "\<not> isspace (last ?t)" by (auto simp: trimmed_def)
  have 1: "single_spaced ('' '' @ ?t)"
    using t(1) tne ht by (cases ?t) (auto simp: isspace_simps)
  have xs: "single_spaced x" using x by (rule is_wordD)
  have xl: "\<not> isspace (last x)" "\<not> isspace (hd x)" "x \<noteq> []" using is_wordD [OF x] by simp_all
  have "single_spaced (x @ '' '' @ ?t)"
    using single_spaced_append [OF xs 1] xl by simp
  moreover have "trimmed (x @ '' '' @ ?t)"
    using xl tne lt by (simp add: trimmed_def)
  ultimately show ?case by simp
qed

lemma join_split_ws:
  "single_spaced s \<Longrightarrow> s = [] \<or> \<not> isspace (last s)
   \<Longrightarrow> join '' '' (split_ws s) = dropWhile isspace s"
proof (induction s rule: split_ws.induct)
  case (1 s)
  show ?case
  proof (cases "dropWhile isspace s")
    case Nil
    show ?thesis by (subst split_ws.simps) (simp only: Nil list.case join.simps)
  next
    case (Cons c cs)
    let ?d = "c # cs"
    let ?w = "takeWhile (\<lambda>x. \<not> isspace x) ?d"
    let ?rest = "dropWhile (\<lambda>x. \<not> isspace x) ?d"
    have sw: "split_ws s = ?w # split_ws ?rest"
      by (subst split_ws.simps) (simp add: Cons)
    have s_eq: "s = takeWhile isspace s @ ?w @ ?rest"
      using Cons by (metis takeWhile_dropWhile_id)
    have d_eq: "?d = ?w @ ?rest" by simp
    show ?thesis
    proof (cases "?rest = []")
      case True
      then have "split_ws ?rest = []" by (simp add: split_ws_Nil del: dropWhile_eq_Nil_conv)
      with sw True d_eq Cons show ?thesis by (metis append_Nil2 join.simps(2))
    next
      case False
      have ss_rest: "single_spaced ?rest"
        using "1.prems"(1) s_eq by (metis single_spaced_appendD2)
      have "s \<noteq> []" using Cons by auto
      then have ls: "\<not> isspace (last s)" using "1.prems"(2) by simp
      have "last s = last ?rest" using s_eq False by (metis last_appendR append_is_Nil_conv)
      with ls have lr: "\<not> isspace (last ?rest)" by simp
      have IH: "join '' '' (split_ws ?rest) = dropWhile isspace ?rest"
        using "1.IH" [OF Cons ss_rest] lr by simp
      obtain x r where xr: "?rest = x # r" using False by (cases ?rest) auto
      have "isspace x" using hd_dropWhile [OF False] xr by simp
      moreover have "x \<in> set ?rest" using xr by simp
      ultimately have x: "x = CHR '' ''" using single_spaced_set [OF ss_rest] by blast
      have rne: "r \<noteq> []" using lr xr \<open>isspace x\<close> by (cases r) auto
      then obtain y r' where r: "r = y # r'" by (cases r) auto
      have ny: "\<not> isspace y" using ss_rest xr r \<open>isspace x\<close> by simp
      then have dr: "dropWhile isspace ?rest = r" using xr r \<open>isspace x\<close> by simp
      have "split_ws ?rest \<noteq> []"
        using dr rne by (simp add: split_ws_Nil del: dropWhile_eq_Nil_conv)
      then have "join '' '' (split_ws s) = ?w @ '' '' @ join '' '' (split_ws ?rest)"
        unfolding sw by (rule join_Cons)
      also have "\<dots> = ?w @ '' '' @ r" using IH dr by simp
      also have "\<dots> = ?w @ ?rest" using xr x by simp
      also have "\<dots> = dropWhile isspace s" using Cons d_eq by simp
      finally show ?thesis .
    qed
  qed
qed

lemma join_split_ws_id:
  "single_spaced s \<Longrightarrow> trimmed s \<Longrightarrow> join '' '' (split_ws s) = s"
proof -
  assume a: "single_spaced s" "trimmed s"
  then have "join '' '' (split_ws s) = dropWhile isspace s"
    by (intro join_split_ws) (auto simp: trimmed_def)
  also have "\<dots> = s" using a(2) by (cases s) (auto simp: trimmed_def)
  finally show ?thesis .
qed

lemma strip_braces_loop_unfold:
  "strip_braces_loop v =
     (if brace_wrapped v then strip_braces_loop (strip (butlast (tl v))) else v)"
  by (subst strip_braces_loop.simps) (simp add: brace_wrapped_def)

lemma strip_braces_loop_props:
  "single_spaced v \<Longrightarrow> trimmed v \<Longrightarrow>
   single_spaced (strip_braces_loop v) \<and> trimmed (strip_braces_loop v)
   \<and> \<not> brace_wrapped (strip_braces_loop v)"
proof (induction v rule: strip_braces_loop.induct)
  case (1 v)
  show ?case
  proof (cases "brace_wrapped v")
    case True
    then have eq: "strip_braces_loop v = strip_braces_loop (strip (butlast (tl v)))"
      by (subst strip_braces_loop_unfold) simp
    have "single_spaced (strip (butlast (tl v)))"
      using "1.prems"(1) by (intro single_spaced_strip single_spaced_butlast single_spaced_tl)
    then show ?thesis
      using "1.IH" True trimmed_strip unfolding eq brace_wrapped_def by blast
  next
    case False
    then have "strip_braces_loop v = v"
      by (subst strip_braces_loop_unfold) simp
    with False "1.prems" show ?thesis by simp
  qed
qed

lemma strip_braces_loop_fix: "\<not> brace_wrapped v \<Longrightarrow> strip_braces_loop v = v"
  by (subst strip_braces_loop_unfold) simp

lemma replace_char_absent: "old \<notin> set s \<Longrightarrow> replace_char old new s = s"
  by (induction s) (auto simp: replace_char_def)

lemma clean_props:
  "single_spaced (clean_whitespace v) \<and> trimmed (clean_whitespace v)
   \<and> \<not> brace_wrapped (clean_whitespace v)"
proof (cases v)
  case None
  then show ?thesis by (simp add: clean_whitespace_def trimmed_def brace_wrapped_def startswith_def)
next
  case (Some x)
  show ?thesis
  proof (cases "x = []")
    case True
    with Some show ?thesis
      by (simp add: clean_whitespace_def trimmed_def brace_wrapped_def startswith_def)
  next
    case False
    let ?f = "join '' '' (split_ws (replace_char (CHR 0x0A) '' '' x))"
    have f: "single_spaced ?f \<and> trimmed ?f"
      by (rule join_words) (simp add: split_ws_words)
    then have "strip ?f = ?f" by (simp add: strip_trimmed)
    then have "clean_whitespace v = strip_braces_loop ?f"
      using Some False by (simp add: clean_whitespace_def strip_braces_def)
    then show ?thesis using strip_braces_loop_props [of ?f] f by simp
  qed
qed

lemma clean_fixpoint:
  assumes "single_spaced y" "trimmed y" "\<not> brace_wrapped y"
  shows "clean_whitespace (Some y) = y"
proof (cases "y = []")
  case True
  then show ?thesis by (simp add: clean_whitespace_def)
next
  case False
  have "CHR 0x0A \<notin> set y"
    using single_spaced_set [OF assms(1), of "CHR 0x0A"] isspace_simps(2) by auto
  then have "replace_char (CHR 0x0A) '' '' y = y" by (rule replace_char_absent)
  then have "clean_whitespace (Some y) = strip_braces (join '' '' (split_ws y))"
    using False by (simp add: clean_whitespace_def)
  also have "\<dots> = strip_braces y" using assms by (simp add: join_split_ws_id)
  also have "\<dots> = y" using assms by (simp add: strip_braces_def strip_trimmed strip_braces_loop_fix)
  finally show ?thesis .
qed

text \<open>
  C2: \<^verbatim>\<open>clean\<close> is idempotent. For every string \<open>x\<close>, cleaning the cleaned value gives
  the cleaned value again; the cleaned value has every whitespace run collapsed to one
  space, is trimmed, and is not wrapped in a brace pair any more.
\<close>

theorem clean_idempotent:
  "clean_whitespace (Some (clean_whitespace (Some x))) = clean_whitespace (Some x)
   \<and> single_spaced (clean_whitespace (Some x))
   \<and> trimmed (clean_whitespace (Some x))
   \<and> \<not> brace_wrapped (clean_whitespace (Some x))"
  using clean_props [of "Some x"] by (simp add: clean_fixpoint)

theorem clean_idempotent_witness:
  "clean_whitespace (Some (clean_whitespace (Some ''  { {a   b} } ''))) = ''a b''"
proof -
  have "clean_whitespace (Some ''  { {a   b} } '') = ''a b''" by code_simp
  then show ?thesis using clean_idempotent [of "''  { {a   b} } ''"] by simp
qed

subsection \<open>Slugs\<close>

lemma alnum_facts:
  "alnum c \<Longrightarrow> \<not> isspace c" "alnum c \<Longrightarrow> lower_char c = c" "alnum c \<Longrightarrow> c \<noteq> CHR ''{''"
  "alnum c \<Longrightarrow> c \<noteq> CHR ''-''"
  by (auto simp: alnum_def isspace_def lower_char_def Let_def)

lemma hyphen_facts: "\<not> alnum CHR ''-''" "\<not> isspace CHR ''-''" "lower_char CHR ''-'' = CHR ''-''"
  by (simp_all add: alnum_def isspace_def lower_char_def)

lemma no_adjacent_Cons: "no_adjacent P (c # s) \<Longrightarrow> no_adjacent P s"
  by (cases s) simp_all

lemma no_adjacent_appendD2: "no_adjacent P (a @ b) \<Longrightarrow> no_adjacent P b"
  by (induction a) (auto dest: no_adjacent_Cons)

lemma no_adjacent_appendD1: "no_adjacent P (a @ b) \<Longrightarrow> no_adjacent P a"
proof (induction P a rule: no_adjacent.induct)
  case (3 P c d r)
  then show ?case by simp
qed simp_all

lemma sub_runs_set: "c \<in> set (sub_runs P s) \<Longrightarrow> c = CHR ''-'' \<or> (c \<in> set s \<and> \<not> P c)"
proof (induction P s rule: sub_runs.induct)
  case (1 P)
  then show ?case by simp
next
  case (2 P x xs)
  then show ?case by (auto split: if_splits dest: set_dropWhileD)
qed

lemma sub_runs_hd: "s \<noteq> [] \<Longrightarrow> \<not> P (hd s) \<Longrightarrow> hd (sub_runs P s) = hd s \<and> sub_runs P s \<noteq> []"
  by (cases s) auto

lemma sub_runs_hyphen_no_adjacent: "no_adjacent hyphen (sub_runs hyphen s)"
proof (induction hyphen s rule: sub_runs.induct)
  case 1
  then show ?case by simp
next
  case (2 c cs)
  show ?case
  proof (cases "hyphen c")
    case True
    let ?d = "dropWhile hyphen cs"
    have IH: "no_adjacent hyphen (sub_runs hyphen ?d)" using 2(1) True by simp
    show ?thesis
    proof (cases "?d = []")
      case True
      with \<open>hyphen c\<close> show ?thesis by (simp del: dropWhile_eq_Nil_conv)
    next
      case False
      then have "\<not> hyphen (hd ?d)" by (rule hd_dropWhile)
      with False have "hd (sub_runs hyphen ?d) = hd ?d \<and> sub_runs hyphen ?d \<noteq> []"
        by (intro sub_runs_hd)
      with \<open>\<not> hyphen (hd ?d)\<close> IH True show ?thesis
        by (cases "sub_runs hyphen ?d") auto
    qed
  next
    case False
    then have IH: "no_adjacent hyphen (sub_runs hyphen cs)" using 2(2) by simp
    with False show ?thesis by (cases "sub_runs hyphen cs") auto
  qed
qed

lemma sub_runs_id:
  "slug_chars s \<Longrightarrow> no_adjacent hyphen s \<Longrightarrow> sub_runs (\<lambda>c. \<not> alnum c) s = s"
proof (induction s)
  case Nil
  then show ?case by simp
next
  case (Cons c cs)
  then have IH: "sub_runs (\<lambda>c. \<not> alnum c) cs = cs"
    by (auto simp: slug_chars_def dest: no_adjacent_Cons)
  show ?case
  proof (cases "alnum c")
    case True
    with IH show ?thesis by simp
  next
    case False
    with Cons.prems have c: "c = CHR ''-''" by (simp add: slug_chars_def)
    have "dropWhile (\<lambda>c. \<not> alnum c) cs = cs"
    proof (cases cs)
      case Nil
      then show ?thesis by simp
    next
      case (Cons d ds)
      with Cons.prems c have "d \<noteq> CHR ''-''" "alnum d \<or> d = CHR ''-''"
        by (simp_all add: slug_chars_def)
      then show ?thesis using Cons by simp
    qed
    with False IH c show ?thesis by simp
  qed
qed

lemma sub_runs_hyphen_id: "no_adjacent hyphen s \<Longrightarrow> sub_runs hyphen s = s"
proof (induction s)
  case Nil
  then show ?case by simp
next
  case (Cons c cs)
  then have IH: "sub_runs hyphen cs = cs" by (auto dest: no_adjacent_Cons)
  show ?case
  proof (cases "hyphen c")
    case False
    with IH show ?thesis by simp
  next
    case True
    have "dropWhile hyphen cs = cs"
      using Cons.prems True by (cases cs) simp_all
    with True IH show ?thesis by simp
  qed
qed

lemma slug_tail_nf:
  "slug_chars s \<Longrightarrow> no_adjacent hyphen s \<Longrightarrow> s = [] \<or> \<not> hyphen (last s) \<Longrightarrow> slug_tail s"
proof (induction s rule: slug_tail.induct)
  case 1
  then show ?case by simp
next
  case (2 c)
  then show ?case by (simp add: slug_chars_def)
next
  case (3 c d r)
  show ?case
  proof (cases "alnum c")
    case True
    with 3 show ?thesis by (simp add: slug_chars_def)
  next
    case False
    with "3.prems" have c: "c = CHR ''-''" by (simp add: slug_chars_def)
    with "3.prems" have d: "alnum d" by (simp add: slug_chars_def)
    have "slug_tail r"
    proof (rule "3.IH"(2) [OF False])
      show "slug_chars r" using "3.prems" by (simp add: slug_chars_def)
      show "no_adjacent hyphen r" using "3.prems"(2) by (auto dest: no_adjacent_Cons)
      show "r = [] \<or> \<not> hyphen (last r)" using "3.prems"(3) by (cases r) auto
    qed
    with False c d show ?thesis by simp
  qed
qed

lemma slug_nf_matches: "slug_nf s \<Longrightarrow> matches_slug s"
proof -
  assume a: "slug_nf s"
  then obtain c r where s: "s = c # r" by (cases s) (auto simp: slug_nf_def)
  from a s have c: "alnum c" by (auto simp: slug_nf_def slug_chars_def)
  have "slug_tail r"
  proof (rule slug_tail_nf)
    show "slug_chars r" using a s by (simp add: slug_nf_def slug_chars_def)
    show "no_adjacent hyphen r" using a s by (auto simp: slug_nf_def dest: no_adjacent_Cons)
    show "r = [] \<or> \<not> hyphen (last r)" using a s by (cases r) (auto simp: slug_nf_def)
  qed
  with c s show ?thesis by (simp add: matches_slug_def)
qed

lemma slug_chars_set: "slug_chars s \<longleftrightarrow> (\<forall>c\<in>set s. alnum c \<or> c = CHR ''-'')"
  by (simp add: slug_chars_def list_all_iff)

lemma strip_by_set: "set (strip_by P s) \<subseteq> set s"
  using strip_by_decomp [of s P] by (metis Un_upper1 Un_upper2 set_append subset_trans)

lemma strip_by_no_adjacent: "no_adjacent Q s \<Longrightarrow> no_adjacent Q (strip_by P s)"
  using strip_by_decomp [of s P] by (metis no_adjacent_appendD1 no_adjacent_appendD2)

lemma slugify_core_nf:
  fixes t :: string
  defines "r \<equiv> strip_char CHR ''-'' (sub_runs hyphen (sub_runs (\<lambda>c. \<not> alnum c) t))"
  shows "r = [] \<or> slug_nf r"
proof (cases "r = []")
  case True
  then show ?thesis by simp
next
  case False
  let ?u = "sub_runs hyphen (sub_runs (\<lambda>c. \<not> alnum c) t)"
  have r: "r = strip_by hyphen ?u" by (simp add: r_def strip_char_def)
  have "\<forall>c\<in>set ?u. alnum c \<or> c = CHR ''-''"
    using sub_runs_set by blast
  then have 1: "slug_chars r"
    unfolding slug_chars_set r using strip_by_set [of hyphen ?u] by blast
  have 2: "no_adjacent hyphen r"
    unfolding r by (rule strip_by_no_adjacent) (rule sub_runs_hyphen_no_adjacent)
  have 3: "\<not> hyphen (hd r) \<and> \<not> hyphen (last r)"
    using strip_by_ends [of hyphen ?u] False unfolding r by blast
  from False 1 2 3 show ?thesis by (simp add: slug_nf_def)
qed

lemma slugify_cases: "slugify x = ''reference'' \<or> slug_nf (slugify x)"
  using slugify_core_nf [of "strip_braces (lower (strip x))"]
  by (auto simp: slugify_def Let_def)

lemma slug_nf_ends: "slug_nf s \<Longrightarrow> s \<noteq> [] \<and> alnum (hd s) \<and> alnum (last s)"
proof -
  assume a: "slug_nf s"
  then have ne: "s \<noteq> []" by (simp add: slug_nf_def)
  then have "hd s \<in> set s" "last s \<in> set s" by simp_all
  with a ne show ?thesis by (auto simp: slug_nf_def slug_chars_set)
qed

lemma slugify_fixpoint: "slug_nf s \<Longrightarrow> slugify s = s"
proof -
  assume a: "slug_nf s"
  note e = slug_nf_ends [OF a]
  have chars: "\<forall>c\<in>set s. alnum c \<or> c = CHR ''-''" using a by (simp add: slug_nf_def slug_chars_set)
  have 1: "strip s = s"
    unfolding strip_def using e by (intro strip_by_id) (simp add: alnum_facts)
  have "\<forall>c\<in>set s. lower_char c = c" using chars alnum_facts(2) hyphen_facts(3) by blast
  then have 2: "lower s = s" by (simp add: lower_def map_idI)
  have "\<not> startswith s ''{''"
    using e alnum_facts(3) [of "hd s"] by (cases s) (auto simp: startswith_def)
  then have "strip_braces_loop s = s" by (subst strip_braces_loop.simps) simp
  then have 3: "strip_braces s = s" by (simp add: strip_braces_def 1)
  have 4: "sub_runs (\<lambda>c. \<not> alnum c) s = s" using a by (simp add: slug_nf_def sub_runs_id)
  have 5: "sub_runs hyphen s = s" using a by (simp add: slug_nf_def sub_runs_hyphen_id)
  have 6: "strip_char CHR ''-'' s = s"
    unfolding strip_char_def using a by (intro strip_by_id) (simp add: slug_nf_def)
  show ?thesis using e by (simp add: slugify_def 1 2 3 4 5 6)
qed

lemma slugify_reference: "slugify ''reference'' = ''reference''"
  by code_simp

lemma slugify_idem: "slugify (slugify x) = slugify x"
  using slugify_cases [of x] slugify_fixpoint slugify_reference by metis

lemma reference_matches: "matches_slug ''reference''"
  by code_simp

lemma slugify_matches: "matches_slug (slugify x)"
  using slugify_cases [of x] slug_nf_matches reference_matches by metis

lemma strip_braces_loop_set: "set (strip_braces_loop v) \<subseteq> set v"
proof (induction v rule: strip_braces_loop.induct)
  case (1 v)
  show ?case
  proof (cases "brace_wrapped v")
    case True
    then have "set (strip_braces_loop v) \<subseteq> set (strip (butlast (tl v)))"
      using 1 by (subst strip_braces_loop_unfold) (simp add: brace_wrapped_def)
    also have "\<dots> \<subseteq> set (butlast (tl v))" unfolding strip_def by (rule strip_by_set)
    also have "\<dots> \<subseteq> set v"
    proof
      fix c assume "c \<in> set (butlast (tl v))"
      then have "c \<in> set (tl v)" by (rule in_set_butlastD)
      then show "c \<in> set v" by (cases v) simp_all
    qed
    finally show ?thesis .
  next
    case False
    then show ?thesis by (simp add: strip_braces_loop_fix)
  qed
qed

lemma sub_runs_all: "\<forall>c\<in>set t. P c \<Longrightarrow> sub_runs P t = (if t = [] then [] else ''-'')"
proof (cases t)
  case Nil
  then show ?thesis by simp
next
  case (Cons a list)
  assume "\<forall>c\<in>set t. P c"
  with Cons have "P a" "dropWhile P list = []" by simp_all
  with Cons show ?thesis by (simp del: dropWhile_eq_Nil_conv)
qed

lemma slugify_no_alnum:
  assumes "\<forall>c\<in>set x. \<not> alnum (lower_char c)"
  shows "slugify x = ''reference''"
proof -
  let ?t = "strip_braces (lower (strip x))"
  have "set ?t \<subseteq> set (lower (strip x))"
    unfolding strip_braces_def using strip_braces_loop_set strip_by_set strip_def
    by (metis subset_trans)
  also have "\<dots> \<subseteq> lower_char ` set x"
    unfolding lower_def strip_def using strip_by_set [of isspace x] by auto
  finally have "\<forall>c\<in>set ?t. \<not> alnum c" using assms by auto
  then have "sub_runs (\<lambda>c. \<not> alnum c) ?t = (if ?t = [] then [] else ''-'')"
    by (rule sub_runs_all)
  then have "strip_char CHR ''-'' (sub_runs hyphen (sub_runs (\<lambda>c. \<not> alnum c) ?t)) = []"
    by (simp add: strip_char_def strip_by_def)
  then show ?thesis by (simp add: slugify_def)
qed

text \<open>
  C4: \<^verbatim>\<open>slugify\<close> is total and deterministic (a function, whose loops terminate), and for
  every input its result is non-empty and matches \<^verbatim>\<open>[a-z0-9]+(-[a-z0-9]+)*\<close>; the fallback
  \<^verbatim>\<open>"reference"\<close>, which matches the pattern too, is the result whenever no character of the
  input is in \<^verbatim>\<open>[a-z0-9]\<close> after lowercasing, as for \<^verbatim>\<open>"!!!"\<close>.
\<close>

theorem slugify_total_pattern:
  "slugify x \<noteq> []
   \<and> (matches_slug (slugify x) \<or> slugify x = ''reference'')
   \<and> matches_slug (slugify x)
   \<and> ((\<forall>c\<in>set x. \<not> alnum (lower_char c)) \<longrightarrow> slugify x = ''reference'')
   \<and> slugify ''!!!'' = ''reference''"
proof (intro conjI impI)
  show m: "matches_slug (slugify x)" by (rule slugify_matches)
  then show "slugify x \<noteq> []" by (auto simp: matches_slug_def)
  from m show "matches_slug (slugify x) \<or> slugify x = ''reference''" by (rule disjI1)
  show "slugify ''!!!'' = ''reference''" by code_simp
  show "slugify x = ''reference''" if "\<forall>c\<in>set x. \<not> alnum (lower_char c)"
    using that by (rule slugify_no_alnum)
qed

theorem slugify_total_pattern_witness:
  "slugify ''?!'' = ''reference'' \<and> matches_slug (slugify ''?!'')"
proof -
  have h: "\<forall>c\<in>set ''?!''. \<not> alnum (lower_char c)"
    by (simp add: alnum_def lower_char_def)
  note t = slugify_total_pattern [of "''?!''"]
  note m = t [THEN conjunct2, THEN conjunct2, THEN conjunct1]
  note i = t [THEN conjunct2, THEN conjunct2, THEN conjunct2, THEN conjunct1]
  show ?thesis by (rule conjI [OF i [THEN mp, OF h] m])
qed

text \<open>
  C9: \<^verbatim>\<open>slugify\<close> is idempotent; so for a record without a (non-empty) \<^verbatim>\<open>ID\<close>, whose
  citekey is the slug of its title, the file name is that slug followed by \<^verbatim>\<open>.tree\<close>:
  the second application in \<^verbatim>\<open>convert_bibtex\<close> changes nothing.
\<close>

theorem slugify_idempotent:
  "slugify (slugify x) = slugify x
   \<and> (map_of entry ''ID'' = None \<or> map_of entry ''ID'' = Some [] \<longrightarrow>
        target_of output_dir entry =
          (output_dir,
           slugify (case map_of entry ''title'' of None \<Rightarrow> ''reference'' | Some t \<Rightarrow> t)
           @ ''.tree''))"
  by (auto simp: slugify_idem target_of_def citekey_def)

theorem slugify_idempotent_witness:
  "slugify (slugify '' {Hello,  World--2nd} '') = ''hello-world-2nd''
   \<and> target_of ''out'' [(''title'', ''{The TeXbook}'')] = (''out'', ''the-texbook.tree'')"
proof -
  have 1: "slugify '' {Hello,  World--2nd} '' = ''hello-world-2nd''" by code_simp
  have 2: "slugify ''{The TeXbook}'' = ''the-texbook''" by code_simp
  have 3: "map_of [(''title'', ''{The TeXbook}'')] ''ID'' = None" by simp
  show ?thesis
    using slugify_idempotent [of "'' {Hello,  World--2nd} ''" "[(''title'', ''{The TeXbook}'')]" "''out''"]
    by (simp add: 1 2)
qed

subsection \<open>Months\<close>













subsection \<open>Dates\<close>















subsection \<open>Failures of the normalization\<close>

text \<open>
  The conversion of the day stands in a \<^verbatim>\<open>try\<close> block, so a day that is not an integer
  literal falls back to 1. \<^verbatim>\<open>_parse_month\<close> converts what \<^verbatim>\<open>isdigit\<close> accepts, which
  includes the superscript digits that \<^verbatim>\<open>int\<close> refuses.
\<close>

lemma format_date_day_guarded:
  "format_date [(''year'', ''800''), (''day'', ''n.d.'')] = Inr (Some ''0800-01-01'')"
  by code_simp

lemma parse_month_raises_on_superscript:
  "parse_month (Some [CHR 0xB2]) = Inl ValueError"
  by code_simp

text \<open>
  C1: the normalization functions never raise. \<^verbatim>\<open>_format_date\<close> does: the conversion
  \<^verbatim>\<open>int(year)\<close> stands outside the \<^verbatim>\<open>try\<close> block that guards \<^verbatim>\<open>int(day)\<close>, so a record
  whose year is not an integer literal, here \<^verbatim>\<open>{"year": "n.d."}\<close>, ends in \<^verbatim>\<open>ValueError\<close>.
\<close>

theorem format_date_raises_on_year:
  "format_date [(''year'', ''n.d.'')] = Inl ValueError"
  by code_simp

subsection \<open>Metadata\<close>

lemma escape_Cons:
  "escape_meta_value (c # v) =
     (if c = CHR ''%'' then backslash # CHR ''%'' # escape_meta_value v
      else c # escape_meta_value v)"
  by (simp add: escape_meta_value_def replace_char_def)

lemma escape_Nil: "escape_meta_value [] = []"
  by (simp add: escape_meta_value_def replace_char_def)

lemma pct_ok_escape: "pct_ok b (escape_meta_value v)"
  by (induction v arbitrary: b) (simp_all add: escape_Cons escape_Nil)

lemma escape_hd: "escape_meta_value v = d # r \<Longrightarrow> d \<noteq> CHR ''%''"
  by (cases v) (auto simp: escape_Cons escape_Nil split: if_splits)

lemma unescape_escape: "unescape (escape_meta_value v) = v"
proof (induction v)
  case Nil
  then show ?case by (simp add: escape_Nil)
next
  case (Cons c v)
  show ?case
  proof (cases "c = CHR ''%''")
    case True
    with Cons show ?thesis by (simp add: escape_Cons)
  next
    case False
    show ?thesis
    proof (cases "escape_meta_value v")
      case Nil
      with Cons False show ?thesis by (simp add: escape_Cons)
    next
      case (Cons d r)
      then have "d \<noteq> CHR ''%''" by (rule escape_hd)
      with Cons Cons.IH False show ?thesis by (simp add: escape_Cons)
    qed
  qed
qed

lemma lower_external: "lower ''external'' = ''external''"
  by (simp add: lower_def lower_char_def)

lemma strip_url_command_unwrap: "trimmed v \<Longrightarrow> strip_url_command v = unwrap_url v"
  by (simp add: strip_url_command_def unwrap_url_def strip_trimmed butlast_conv_take)

lemma unwrap_url_wrapped: "unwrap_url (backslash # ''url{'' @ inner @ ''}'') = strip inner"
  by (simp add: unwrap_url_def startswith_def endswith_def)

lemma meta_pairs_step:
  "meta_pairs ((field, value) # rest) =
     (case meta_entry field value of None \<Rightarrow> meta_pairs rest | Some kv \<Rightarrow> kv # meta_pairs rest)"
proof -
  let ?c = "clean_whitespace (Some value)"
  have t: "strip_url_command ?c = unwrap_url ?c"
    using clean_props [of "Some value"] by (simp add: strip_url_command_unwrap)
  have e: "field = ''external'' \<Longrightarrow> lower field = ''external''"
    by (simp add: lower_external)
  show ?thesis
    using e by (auto simp: meta_entry_def Let_def skip_def URL_FIELDS_def t)
qed

lemma meta_pairs_map_filter:
  "meta_pairs entry = List.map_filter (\<lambda>(field, value). meta_entry field value) entry"
proof (induction entry)
  case Nil
  then show ?case by (simp add: map_filter_simps)
next
  case (Cons a entry)
  obtain field "value" where a: "a = (field, value)" by (cases a)
  show ?case
    unfolding a meta_pairs_step using Cons.IH
    by (simp add: map_filter_simps split: option.splits)
qed

lemma meta_pairs_append: "meta_pairs (e1 @ e2) = meta_pairs e1 @ meta_pairs e2"
  by (simp add: meta_pairs_map_filter map_filter_def)


text \<open>
  C8: every field that survives projection (its name is none of the five exact lowercase
  keys and its cleaned value is not empty) is emitted, in the record's order, under the
  key \<^verbatim>\<open>external\<close> when its name is \<^verbatim>\<open>url\<close>, \<^verbatim>\<open>howpublished\<close> or \<^verbatim>\<open>external\<close> up to case, and
  under its own name otherwise; a renamed value loses a \<^verbatim>\<open>\url{...}\<close> wrapper and the inner
  content is trimmed; in the emitted value every percent sign stands after a backslash,
  and removing those backslashes gives the value back.
\<close>

theorem meta_pairs_projection:
  "meta_pairs entry = List.map_filter (\<lambda>(field, v). meta_entry field v) entry
   \<and> unwrap_url (backslash # ''url{'' @ inner @ ''}'') = strip inner
   \<and> percent_escaped (escape_meta_value v)
   \<and> unescape (escape_meta_value v) = v"
  using meta_pairs_map_filter unwrap_url_wrapped unescape_escape
  by (simp add: percent_escaped_def pct_ok_escape)

theorem meta_pairs_projection_witness:
  "meta_pairs [(''URL'', backslash # ''url{ http://x.org/a%20b }''), (''title'', ''T''),
               (''note'', ''50% off''), (''Title'', '' {B}  '')]
   = [(''external'', ''http://x.org/a'' @ [backslash] @ ''%20b''),
      (''note'', ''50'' @ [backslash] @ ''% off''), (''Title'', ''B'')]"
proof -
  let ?e = "[(''URL'', backslash # ''url{ http://x.org/a%20b }''), (''title'', ''T''),
             (''note'', ''50% off''), (''Title'', '' {B}  '')]"
  have "List.map_filter (\<lambda>(field, v). meta_entry field v) ?e
        = [(''external'', ''http://x.org/a'' @ [backslash] @ ''%20b''),
           (''note'', ''50'' @ [backslash] @ ''% off''), (''Title'', ''B'')]"
    by code_simp
  then show ?thesis
    using meta_pairs_projection [of ?e "[]" "[]", THEN conjunct1] by simp
qed

subsection \<open>Documents\<close>

lemma join_terminated:
  "join sep (ls @ [[]]) = concat (map (\<lambda>l. l @ sep) ls)"
proof (induction ls)
  case Nil
  then show ?case by simp
next
  case (Cons l ls)
  have "join sep (l # (ls @ [[]])) = l @ sep @ join sep (ls @ [[]])"
    by (rule join_Cons) simp
  with Cons show ?case by simp
qed

lemma foldl_append_meta:
  "foldl append_meta ls ps = ls @ map meta_line (filter (\<lambda>kv. snd kv \<noteq> []) ps)"
  by (induction ps arbitrary: ls) (simp_all add: append_meta_def)

lemma join_nonempty: "xs \<noteq> [] \<Longrightarrow> hd xs \<noteq> [] \<Longrightarrow> join sep xs \<noteq> []"
  by (induction xs rule: induct_list012) auto

lemma format_authors_nonempty: "format_authors a = Some s \<Longrightarrow> s \<noteq> []"
proof -
  assume a: "format_authors a = Some s"
  let ?as = "filter (\<lambda>p. p \<noteq> []) (map strip (split_sep '' and '' [] (clean_whitespace a)))"
  from a have ne: "?as \<noteq> []" and s: "s = join '', '' ?as"
    by (auto simp: format_authors_def Let_def split: if_splits)
  from ne have "hd ?as \<in> set ?as" by (rule hd_in_set)
  then have "hd ?as \<noteq> []" by simp
  with ne show ?thesis unfolding s by (rule join_nonempty)
qed

lemma format_date_nonempty: "format_date entry = Inr (Some d) \<Longrightarrow> d \<noteq> []"
  by (auto simp: format_date_def Let_def split: if_splits sum.splits)

lemma build_tree_content_lines:
  "build_tree_content entry =
     (case format_date entry of
        Inl err \<Rightarrow> Inl err
      | Inr d \<Rightarrow> Inr (concat (map (\<lambda>l. l @ [CHR 0x0A]) (document_lines entry d))))"
proof (cases "format_date entry")
  case (Inl err)
  then show ?thesis by (simp add: build_tree_content_def Let_def)
next
  case (Inr d)
  let ?t = "if clean_whitespace (map_of entry ''title'') = [] then ''Untitled''
            else clean_whitespace (map_of entry ''title'')"
  let ?l0 = "[title_line ?t, taxon_line]"
  have au: "(case format_authors (map_of entry ''author'') of
               None \<Rightarrow> ?l0
             | Some authors \<Rightarrow> if authors \<noteq> [] then ?l0 @ [author_line authors] else ?l0)
            = ?l0 @ (case format_authors (map_of entry ''author'') of
                       None \<Rightarrow> [] | Some a \<Rightarrow> [author_line a])"
    by (auto split: option.splits dest: format_authors_nonempty)
  have da: "(case d of None \<Rightarrow> ls | Some s \<Rightarrow> if s \<noteq> [] then ls @ [date_line s] else ls)
            = ls @ (case d of None \<Rightarrow> [] | Some s \<Rightarrow> [date_line s])" for ls
    using Inr by (auto split: option.splits dest: format_date_nonempty)
  have t: "(let t = clean_whitespace (map_of entry ''title'')
            in if t \<noteq> [] then t else ''Untitled'') = ?t"
    by (simp add: Let_def)
  show ?thesis
    unfolding build_tree_content_def t
    by (simp add: Inr Let_def au da foldl_append_meta join_terminated document_lines_def
             del: append_assoc)
qed

lemma document_lines_content: "l \<in> set (document_lines entry d) \<Longrightarrow> content_line l"
  by (auto simp: document_lines_def content_line_def title_line_def taxon_line_def
                 author_line_def date_line_def meta_line_def split: option.splits)

lemma document_lines_rest:
  "l \<in> set (drop 2 (document_lines entry d)) \<Longrightarrow>
   \<not> startswith l (backslash # ''title{'') \<and> \<not> startswith l (backslash # ''taxon{'')"
  by (auto simp: document_lines_def startswith_def author_line_def date_line_def meta_line_def
           split: option.splits)

text \<open>
  C6: for every record, \<^verbatim>\<open>build_tree_content\<close> fails exactly when \<^verbatim>\<open>_format_date\<close> does, and
  otherwise the body consists of the content lines, each followed by one line break and
  nothing after the last: the title line (the cleaned title, or \<^verbatim>\<open>Untitled\<close>), the taxonomy
  line, the author line iff \<^verbatim>\<open>_format_authors\<close> is not \<^verbatim>\<open>None\<close>, the date line iff
  \<^verbatim>\<open>_format_date\<close> is not \<^verbatim>\<open>None\<close>, and the metadata lines in the order of the record's
  fields. No later line is a title or a taxonomy line, and no content line is empty, so
  the body ends with exactly one empty line.
\<close>

theorem build_tree_content_structure:
  "build_tree_content entry =
     (case format_date entry of
        Inl err \<Rightarrow> Inl err
      | Inr d \<Rightarrow> Inr (concat (map (\<lambda>l. l @ [CHR 0x0A]) (document_lines entry d))))
   \<and> take 2 (document_lines entry d) =
       [title_line (if clean_whitespace (map_of entry ''title'') = [] then ''Untitled''
                    else clean_whitespace (map_of entry ''title'')),
        taxon_line]
   \<and> (\<forall>l\<in>set (drop 2 (document_lines entry d)).
         \<not> startswith l (backslash # ''title{'') \<and> \<not> startswith l (backslash # ''taxon{''))
   \<and> (\<forall>l\<in>set (document_lines entry d). content_line l)
   \<and> meta_pairs (e1 @ e2) = meta_pairs e1 @ meta_pairs e2"
proof (intro conjI ballI)
  show "build_tree_content entry =
     (case format_date entry of
        Inl err \<Rightarrow> Inl err
      | Inr d \<Rightarrow> Inr (concat (map (\<lambda>l. l @ [CHR 0x0A]) (document_lines entry d))))"
    by (rule build_tree_content_lines)
  show "take 2 (document_lines entry d) =
       [title_line (if clean_whitespace (map_of entry ''title'') = [] then ''Untitled''
                    else clean_whitespace (map_of entry ''title'')),
        taxon_line]"
    by (simp add: document_lines_def)
  show "meta_pairs (e1 @ e2) = meta_pairs e1 @ meta_pairs e2" by (rule meta_pairs_append)
next
  fix l assume "l \<in> set (drop 2 (document_lines entry d))"
  then show "\<not> startswith l (backslash # ''title{'')" "\<not> startswith l (backslash # ''taxon{'')"
    using document_lines_rest by blast+
next
  fix l assume "l \<in> set (document_lines entry d)"
  then show "content_line l" by (rule document_lines_content)
qed

theorem build_tree_content_structure_witness:
  "build_tree_content
     [(''title'', ''{A Title}''), (''author'', ''Jane Doe and John Smith''), (''year'', ''5''),
      (''publisher'', ''ACM'')]
   = Inr (backslash # ''title{A Title}'' @ [CHR 0x0A]
          @ backslash # ''taxon{Reference}'' @ [CHR 0x0A]
          @ backslash # ''author/literal{Jane Doe, John Smith}'' @ [CHR 0x0A]
          @ backslash # ''date{0005-01-01}'' @ [CHR 0x0A]
          @ backslash # ''meta{publisher}{ACM}'' @ [CHR 0x0A])"
proof -
  let ?e = "[(''title'', ''{A Title}''), (''author'', ''Jane Doe and John Smith''),
             (''year'', ''5''), (''publisher'', ''ACM'')]"
  have d: "format_date ?e = Inr (Some ''0005-01-01'')" by code_simp
  have l: "document_lines ?e (Some ''0005-01-01'')
           = [backslash # ''title{A Title}'', backslash # ''taxon{Reference}'',
              backslash # ''author/literal{Jane Doe, John Smith}'',
              backslash # ''date{0005-01-01}'', backslash # ''meta{publisher}{ACM}'']"
    by code_simp
  show ?thesis
    using build_tree_content_structure [of ?e "Some ''0005-01-01''" "[]" "[]", THEN conjunct1]
    by (simp add: d l)
qed

subsection \<open>Escaping\<close>











subsection \<open>Batches\<close>














end
